theory Spec2Isabelle
  imports Complex_Main
begin

section \<open>Data model (project.cpp, lines 10-43)\<close>

text \<open>
  The source keeps every point in one global array \<^verbatim>\<open>Point points[MAX_POINTS]\<close>.
  A \<^verbatim>\<open>Point\<close> has two coordinates and two atomic fields; the default constructor
  gives \<^verbatim>\<open>Point(0, 0)\<close> with \<^verbatim>\<open>clusterId = 0\<close> and \<^verbatim>\<open>visited = false\<close>.
  Coordinates are \<^verbatim>\<open>double\<close> in the source. A finite double is a real number, so
  the fields are reals here; what the source computes with them is rounded as
  binary64 arithmetic rounds it (next section). The two zeros of binary64 are the
  one real 0: they are equal in every comparison the program makes and give the same
  results in \<^verbatim>\<open>squaredDistance\<close>.
  The array is a total function from slot numbers; the code only ever touches the
  slots below \<open>MAX_POINTS\<close>.
\<close>

definition MAX_POINTS :: nat where
  "MAX_POINTS = 10000"

definition MAX_NEIGHBORS :: nat where
  "MAX_NEIGHBORS = 10000"

record Point =
  x :: real
  y :: real
  clusterId :: int
  visited :: bool

definition mkPoint :: "real \<Rightarrow> real \<Rightarrow> Point" where
  "mkPoint a b = \<lparr>x = a, y = b, clusterId = 0, visited = False\<rparr>"

type_synonym store = "nat \<Rightarrow> Point"

text \<open>The array as the program starts: every slot default constructed.\<close>

definition points0 :: store where
  "points0 = (\<lambda>_. mkPoint 0 0)"

section \<open>Arithmetic on doubles\<close>

text \<open>
  The finite doubles are the numbers \<open>m * 2 ^ e\<close> with \<open>m\<close> an integer,
  \<open>\<bar>m\<bar> < 2 ^ 53\<close> and \<open>- 1074 \<le> e\<close>, up to the largest double. Around a
  number \<open>r\<close> with \<open>2 ^ k \<le> \<bar>r\<bar> < 2 ^ (k + 1)\<close> they are \<open>2 ^ (k - 52)\<close> apart,
  and \<open>2 ^ (- 1074)\<close> apart below \<open>2 ^ (- 1022)\<close> (the subnormal range).
  Each of \<^verbatim>\<open>-\<close>, \<^verbatim>\<open>*\<close> and \<^verbatim>\<open>+\<close> on doubles returns the double nearest to the exact
  result, the one with even \<open>m\<close> when two are equally near: a product of
  magnitude at most \<open>2 ^ (- 1075)\<close> is 0 (underflow), a difference of equal numbers
  is 0.

  The source is read as compiled to binary64 operations, one rounding per operator.
  A result beyond the largest double is an infinity in the source; here it stays a
  real above every double, which compares with a finite \<^verbatim>\<open>epsilonSquared\<close> as the
  infinity does (in \<^verbatim>\<open>dbscan\<close> the product \<^verbatim>\<open>epsilon * epsilon\<close> is finite for
  \<open>\<bar>epsilon\<bar> < 2 ^ 512\<close>). The coordinates read from a file are finite, so no
  operation of \<^verbatim>\<open>squaredDistance\<close> yields a NaN.
\<close>

definition quantum :: "real \<Rightarrow> real" where
  "quantum r = 2 powi (max (\<lfloor>log 2 \<bar>r\<bar>\<rfloor> - 52) (- 1074))"

definition nearest_even :: "real \<Rightarrow> int" where
  "nearest_even t =
     (let f = \<lfloor>t\<rfloor> in
      if t - of_int f < 1 / 2 then f
      else if 1 / 2 < t - of_int f then f + 1
      else if even f then f else f + 1)"

definition round_double :: "real \<Rightarrow> real" where
  "round_double r = (if r = 0 then 0 else quantum r * of_int (nearest_even (r / quantum r)))"

definition double_minus :: "real \<Rightarrow> real \<Rightarrow> real" where
  "double_minus a b = round_double (a - b)"

definition double_times :: "real \<Rightarrow> real \<Rightarrow> real" where
  "double_times a b = round_double (a * b)"

definition double_plus :: "real \<Rightarrow> real \<Rightarrow> real" where
  "double_plus a b = round_double (a + b)"

section \<open>Neighbour search (project.cpp, lines 45-60)\<close>

definition squaredDistance :: "Point \<Rightarrow> Point \<Rightarrow> real" where
  "squaredDistance a b =
     double_plus (double_times (double_minus (x a) (x b)) (double_minus (x a) (x b)))
                 (double_times (double_minus (y a) (y b)) (double_minus (y a) (y b)))"

text \<open>
  \<^verbatim>\<open>findNeighbors\<close> fills the caller's buffer \<^verbatim>\<open>neighbors\<close> and returns the count.
  The buffer is a list whose length is its allocated capacity; a write past the end
  is undefined behaviour in the source and the value \<open>None\<close> here.
  The loop variable \<open>i\<close> and \<open>count\<close> are never negative, so they are naturals;
  \<^verbatim>\<open>maxNeighbors\<close> is an \<^verbatim>\<open>int\<close> parameter and stays one.
\<close>

function findNeighbors_loop ::
  "store \<Rightarrow> Point \<Rightarrow> real \<Rightarrow> int \<Rightarrow> nat \<Rightarrow> nat list \<Rightarrow> nat \<Rightarrow> (nat list \<times> nat) option" where
  "findNeighbors_loop points point epsilonSquared maxNeighbors i neighbors count =
     (if i < MAX_POINTS \<and> int count < maxNeighbors then
        if x (points i) = 0 \<and> y (points i) = 0 then
          findNeighbors_loop points point epsilonSquared maxNeighbors (i + 1) neighbors count
        else if squaredDistance point (points i) \<le> epsilonSquared then
          (if count < length neighbors then
             findNeighbors_loop points point epsilonSquared maxNeighbors (i + 1)
               (neighbors[count := i]) (count + 1)
           else None)
        else findNeighbors_loop points point epsilonSquared maxNeighbors (i + 1) neighbors count
      else Some (neighbors, count))"
  by pat_completeness auto
termination
  by (relation "measure (\<lambda>(points, point, epsilonSquared, maxNeighbors, i, neighbors, count).
        MAX_POINTS - i)") auto

declare findNeighbors_loop.simps [simp del]

definition findNeighbors ::
  "store \<Rightarrow> Point \<Rightarrow> real \<Rightarrow> nat list \<Rightarrow> int \<Rightarrow> (nat list \<times> nat) option" where
  "findNeighbors points point epsilonSquared neighbors maxNeighbors =
     findNeighbors_loop points point epsilonSquared maxNeighbors 0 neighbors 0"

text \<open>The slots the scan accepts: not at the origin and within the radius.\<close>

definition accepted :: "store \<Rightarrow> Point \<Rightarrow> real \<Rightarrow> nat \<Rightarrow> bool" where
  "accepted points point epsilonSquared j \<longleftrightarrow>
     \<not> (x (points j) = 0 \<and> y (points j) = 0) \<and>
     squaredDistance point (points j) \<le> epsilonSquared"

definition scanned :: "store \<Rightarrow> Point \<Rightarrow> real \<Rightarrow> nat \<Rightarrow> nat list" where
  "scanned points point epsilonSquared i =
     filter (accepted points point epsilonSquared) [i..<MAX_POINTS]"

text \<open>
  A call as \<^verbatim>\<open>processPoint\<close> and \<^verbatim>\<open>expandCluster\<close> make it: a buffer from
  \<^verbatim>\<open>make_unique<int[]>(MAX_NEIGHBORS)\<close> (value initialised), capacity
  \<^verbatim>\<open>MAX_NEIGHBORS\<close>; the caller then reads the entries below the returned count only.
  \<^verbatim>\<open>expandCluster\<close> allocates its buffer once and uses it again for each neighbour;
  the entries below the count are the same whatever the buffer held
  (lemma \<open>query_any_buffer\<close>).
\<close>

definition query :: "store \<Rightarrow> Point \<Rightarrow> real \<Rightarrow> nat list option" where
  "query points point epsilonSquared =
     (case findNeighbors points point epsilonSquared (replicate MAX_NEIGHBORS 0)
             (int MAX_NEIGHBORS) of
        None \<Rightarrow> None
      | Some (neighbors, count) \<Rightarrow> Some (take count neighbors))"

section \<open>Loading and writing (project.cpp, main, lines 135-141 and 167-174)\<close>

text \<open>
  The input file is the sequence of coordinate pairs that \<^verbatim>\<open>file >> x >> y\<close> reads:
  the doubles the extraction returns, up to the first token that is not a number.
  Each pair is constructed in place at slot \<^verbatim>\<open>pointCount\<close>; the loop stops at
  \<^verbatim>\<open>MAX_POINTS\<close> points.
\<close>

fun load_loop :: "(real \<times> real) list \<Rightarrow> nat \<Rightarrow> store \<Rightarrow> store \<times> nat" where
  "load_loop [] pointCount points = (points, pointCount)"
| "load_loop ((a, b) # rest) pointCount points =
     (if pointCount < MAX_POINTS
      then load_loop rest (pointCount + 1) (points(pointCount := mkPoint a b))
      else (points, pointCount))"

definition load :: "(real \<times> real) list \<Rightarrow> store \<times> nat" where
  "load file = load_loop file 0 points0"

text \<open>A slot counts as initialised when one of its coordinates is not zero.\<close>

definition initialized :: "store \<Rightarrow> nat \<Rightarrow> bool" where
  "initialized points i \<longleftrightarrow> x (points i) \<noteq> 0 \<or> y (points i) \<noteq> 0"


section \<open>Workers (project.cpp, lines 62-126)\<close>

text \<open>
  \<^verbatim>\<open>dbscan\<close> starts one \<^verbatim>\<open>std::thread\<close> running \<^verbatim>\<open>processPoint\<close> for every
  initialised slot and joins them all. The threads share the array, the counter
  \<^verbatim>\<open>nextClusterId\<close> and the semaphore \<^verbatim>\<open>thread_limiter\<close>. Every access to
  \<^verbatim>\<open>visited\<close>, \<^verbatim>\<open>clusterId\<close> and \<^verbatim>\<open>nextClusterId\<close> is a sequentially
  consistent atomic operation, so an execution is an interleaving of these
  operations: one step of the machine below is one such operation of one thread,
  together with the thread-local computation that follows it.

  A frame is one activation of \<^verbatim>\<open>expandCluster\<close>: its arguments, its loop
  variable and the place it has reached.
\<close>

datatype place =
    Assign  \<comment> \<open>line 64: store to \<^verbatim>\<open>points[pointIndex].clusterId\<close>\<close>
  | Visit   \<comment> \<open>lines 69-78: loop test, \<^verbatim>\<open>p.visited.exchange(true)\<close>, recursive call\<close>
  | Check   \<comment> \<open>line 81: load of \<^verbatim>\<open>p.clusterId\<close>\<close>
  | Claim   \<comment> \<open>line 82: store to \<^verbatim>\<open>p.clusterId\<close>\<close>

record frame =
  pointIndex :: nat
  neighbors :: "nat list"
  cluster :: int
  loop_i :: nat
  pc :: place

datatype worker =
    AtAcquire                \<comment> \<open>line 89, blocked until a permit is free\<close>
  | AtExchange               \<comment> \<open>line 92\<close>
  | AtIncrement "nat list"   \<comment> \<open>line 100, holding the neighbours found at line 96\<close>
  | InExpand "frame list"    \<comment> \<open>lines 101 and 63-85, innermost activation first\<close>
  | AtRelease                \<comment> \<open>line 105\<close>
  | Finished

text \<open>
  The field \<open>calls\<close> is a history variable: it lists the \<^verbatim>\<open>pointIndex\<close> of every
  invocation of \<^verbatim>\<open>expandCluster\<close> so far. Nothing reads it.
\<close>

record dbscan_state =
  points :: store
  nextClusterId :: int
  thread_limiter :: nat
  workers :: "(nat \<times> worker) list"
  epsilonSquared :: real
  minPts :: int
  calls :: "nat list"

definition set_visited :: "store \<Rightarrow> nat \<Rightarrow> store" where
  "set_visited ps q = ps(q := (ps q)\<lparr>visited := True\<rparr>)"

definition set_clusterId :: "store \<Rightarrow> nat \<Rightarrow> int \<Rightarrow> store" where
  "set_clusterId ps q c = ps(q := (ps q)\<lparr>clusterId := c\<rparr>)"

text \<open>
  \<^verbatim>\<open>p.visited.exchange(true)\<close> returning false, followed by \<^verbatim>\<open>findNeighbors\<close> and
  the comparison with \<^verbatim>\<open>minPts\<close>: \<open>Some ns\<close> when the point is a core point.
\<close>

definition visit :: "dbscan_state \<Rightarrow> nat \<Rightarrow> (dbscan_state \<times> nat list option) option" where
  "visit s q =
     (let s' = s\<lparr>points := set_visited (points s) q\<rparr> in
      case query (points s') (points s' q) (epsilonSquared s) of
        None \<Rightarrow> None
      | Some ns \<Rightarrow> Some (s', if minPts s \<le> int (length ns) then Some ns else None))"

definition expand_step :: "dbscan_state \<Rightarrow> frame \<Rightarrow> frame list \<Rightarrow> (dbscan_state \<times> worker) option" where
  "expand_step s f fs =
     (case pc f of
        Assign \<Rightarrow>
          Some (s\<lparr>points := set_clusterId (points s) (pointIndex f) (cluster f)\<rparr>,
                InExpand (f\<lparr>pc := Visit\<rparr> # fs))
      | Visit \<Rightarrow>
          if loop_i f < length (neighbors f) then
            let q = neighbors f ! loop_i f in
            if visited (points s q) then Some (s, InExpand (f\<lparr>pc := Check\<rparr> # fs))
            else
              (case visit s q of
                 None \<Rightarrow> None
               | Some (s', None) \<Rightarrow> Some (s', InExpand (f\<lparr>pc := Check\<rparr> # fs))
               | Some (s', Some ns) \<Rightarrow>
                   Some (s'\<lparr>calls := calls s' @ [q]\<rparr>,
                         InExpand (\<lparr>pointIndex = q, neighbors = ns, cluster = cluster f,
                                     loop_i = 0, pc = Assign\<rparr> # f\<lparr>pc := Check\<rparr> # fs)))
          else Some (s, InExpand fs)
      | Check \<Rightarrow>
          if clusterId (points s (neighbors f ! loop_i f)) = 0
          then Some (s, InExpand (f\<lparr>pc := Claim\<rparr> # fs))
          else Some (s, InExpand (f\<lparr>loop_i := loop_i f + 1, pc := Visit\<rparr> # fs))
      | Claim \<Rightarrow>
          Some (s\<lparr>points := set_clusterId (points s) (neighbors f ! loop_i f) (cluster f)\<rparr>,
                InExpand (f\<lparr>loop_i := loop_i f + 1, pc := Visit\<rparr> # fs)))"

text \<open>One step of the worker started for slot \<open>index\<close>; \<open>None\<close> when it cannot move.\<close>

fun processPoint :: "dbscan_state \<Rightarrow> nat \<Rightarrow> worker \<Rightarrow> (dbscan_state \<times> worker) option" where
  "processPoint s index AtAcquire =
     (if 0 < thread_limiter s
      then Some (s\<lparr>thread_limiter := thread_limiter s - 1\<rparr>, AtExchange) else None)"
| "processPoint s index AtExchange =
     (if visited (points s index) then Some (s, AtRelease)
      else
        (case visit s index of
           None \<Rightarrow> None
         | Some (s', None) \<Rightarrow> Some (s', AtRelease)
         | Some (s', Some ns) \<Rightarrow> Some (s', AtIncrement ns)))"
| "processPoint s index (AtIncrement ns) =
     (let c = nextClusterId s + 1 in
      Some (s\<lparr>nextClusterId := c, calls := calls s @ [index]\<rparr>,
            InExpand [\<lparr>pointIndex = index, neighbors = ns, cluster = c,
                       loop_i = 0, pc = Assign\<rparr>]))"
| "processPoint s index (InExpand []) = Some (s, AtRelease)"
| "processPoint s index (InExpand (f # fs)) = expand_step s f fs"
| "processPoint s index AtRelease =
     Some (s\<lparr>thread_limiter := thread_limiter s + 1\<rparr>, Finished)"
| "processPoint s index Finished = None"

text \<open>The scheduler lets worker \<open>t\<close> take its next step.\<close>

definition step :: "dbscan_state \<Rightarrow> nat \<Rightarrow> dbscan_state option" where
  "step s t =
     (if t < length (workers s) then
        (case processPoint s (fst (workers s ! t)) (snd (workers s ! t)) of
           None \<Rightarrow> None
         | Some (s', w') \<Rightarrow> Some (s'\<lparr>workers := (workers s')[t := (fst (workers s ! t), w')]\<rparr>))
      else None)"

fun run :: "nat list \<Rightarrow> dbscan_state \<Rightarrow> dbscan_state option" where
  "run [] s = Some s"
| "run (t # ts) s = (case step s t of None \<Rightarrow> None | Some s' \<Rightarrow> run ts s')"

text \<open>
  The state \<^verbatim>\<open>dbscan\<close> has built when its first loop ends (lines 110-118), and
  the condition under which its second loop, the joins, ends (lines 121-125).
\<close>

definition dbscan :: "store \<Rightarrow> real \<Rightarrow> int \<Rightarrow> dbscan_state" where
  "dbscan ps epsilon minPts' =
     \<lparr>points = ps, nextClusterId = 0, thread_limiter = 16,
      workers = map (\<lambda>i. (i, AtAcquire)) (filter (initialized ps) [0..<MAX_POINTS]),
      epsilonSquared = double_times epsilon epsilon, minPts = minPts', calls = []\<rparr>"

definition joined :: "dbscan_state \<Rightarrow> bool" where
  "joined s \<longleftrightarrow> list_all (\<lambda>w. snd w = Finished) (workers s)"

section \<open>The program (project.cpp, main, lines 127-187)\<close>


section \<open>Notions used to state the invariants\<close>

text \<open>The neighbours \<^verbatim>\<open>findNeighbors\<close> reports for slot \<open>q\<close> in state \<open>s\<close>.\<close>

abbreviation around :: "dbscan_state \<Rightarrow> nat \<Rightarrow> nat list" where
  "around s q \<equiv> scanned (points s) (points s q) (epsilonSquared s) 0"

text \<open>The activations of \<^verbatim>\<open>expandCluster\<close> a worker has on its stack.\<close>

fun frames_of :: "worker \<Rightarrow> frame list" where
  "frames_of (InExpand fs) = fs"
| "frames_of _ = []"


text \<open>A worker holds a permit of \<^verbatim>\<open>thread_limiter\<close> from line 89 to line 105.\<close>

fun holding :: "worker \<Rightarrow> bool" where
  "holding AtAcquire = False"
| "holding Finished = False"
| "holding _ = True"

text \<open>A worker that has passed the exchange at line 92.\<close>

fun entered :: "worker \<Rightarrow> bool" where
  "entered AtAcquire = False"
| "entered AtExchange = False"
| "entered _ = True"

definition permits_ok :: "dbscan_state \<Rightarrow> bool" where
  "permits_ok s \<longleftrightarrow> length (filter (\<lambda>w. holding (snd w)) (workers s)) + thread_limiter s = 16"

definition entered_ok :: "dbscan_state \<Rightarrow> bool" where
  "entered_ok s \<longleftrightarrow> (\<forall>e \<in> set (workers s). entered (snd e) \<longrightarrow> visited (points s (fst e)))"

text \<open>A worker that has won its point and is about to take a cluster id.\<close>

fun pending :: "worker \<Rightarrow> bool" where
  "pending (AtIncrement ns) = True"
| "pending _ = False"

text \<open>The neighbour lists a worker holds.\<close>

fun reported :: "worker \<Rightarrow> nat list" where
  "reported (AtIncrement ns) = ns"
| "reported (InExpand fs) = concat (map neighbors fs)"
| "reported _ = []"

text \<open>
  The invariant behind the bound on the calls of \<^verbatim>\<open>expandCluster\<close>: every call
  was made for a slot that is marked visited, no slot is called twice, a worker that
  has won its slot has not called yet, and the activations on one stack are for
  different slots.
\<close>

definition slot_ok :: "store \<Rightarrow> nat \<Rightarrow> bool" where
  "slot_ok ps q \<longleftrightarrow> q < MAX_POINTS \<and> initialized ps q"

definition worker_ok :: "store \<Rightarrow> nat list \<Rightarrow> nat \<times> worker \<Rightarrow> bool" where
  "worker_ok ps cs e \<longleftrightarrow>
     slot_ok ps (fst e) \<and>
     (\<forall>q \<in> set (reported (snd e)). slot_ok ps q) \<and>
     (pending (snd e) \<longrightarrow> visited (ps (fst e)) \<and> fst e \<notin> set cs) \<and>
     distinct (map pointIndex (frames_of (snd e))) \<and>
     pointIndex ` set (frames_of (snd e)) \<subseteq> set cs"

definition calls_ok :: "dbscan_state \<Rightarrow> bool" where
  "calls_ok s \<longleftrightarrow>
     distinct (calls s) \<and> distinct (map fst (workers s)) \<and>
     (\<forall>q \<in> set (calls s). visited (points s q) \<and> slot_ok (points s) q) \<and>
     (\<forall>e \<in> set (workers s). worker_ok (points s) (calls s) e)"

text \<open>
  A bound on the steps still to come: each activation pays for the rest of its loop,
  each unvisited slot for one more activation.
\<close>

fun frame_left :: "frame \<Rightarrow> nat" where
  "frame_left f =
     (case pc f of
        Assign \<Rightarrow> 3 * length (neighbors f) + 2
      | Visit \<Rightarrow> 3 * (length (neighbors f) - loop_i f) + 1
      | Check \<Rightarrow> 3 * (length (neighbors f) - (loop_i f + 1)) + 3
      | Claim \<Rightarrow> 3 * (length (neighbors f) - (loop_i f + 1)) + 2)"

fun worker_left :: "worker \<Rightarrow> nat" where
  "worker_left AtAcquire = 3"
| "worker_left AtExchange = 2"
| "worker_left (AtIncrement ns) = 3 * length ns + 5"
| "worker_left (InExpand fs) = 2 + sum_list (map frame_left fs)"
| "worker_left AtRelease = 1"
| "worker_left Finished = 0"

definition unvisited :: "store \<Rightarrow> nat" where
  "unvisited ps = card {i. i < MAX_POINTS \<and> \<not> visited (ps i)}"

definition work_left :: "dbscan_state \<Rightarrow> nat" where
  "work_left s =
     (3 * MAX_POINTS + 4) * unvisited (points s)
     + sum_list (map (\<lambda>e. worker_left (snd e)) (workers s))"

text \<open>
  With \<open>epsilonSquared = 0\<close> the query around a slot returns the initialised slots
  whose computed squared distance from it is 0: the slots at the same coordinates,
  and the slots so close that the squares underflow. Two slots touch when they are
  initialised, below \<^verbatim>\<open>MAX_POINTS\<close>, and at computed squared distance 0; they are
  chained when a sequence of touching slots leads from one to the other.
\<close>

definition same_place :: "store \<Rightarrow> nat \<Rightarrow> nat \<Rightarrow> bool" where
  "same_place ps a b \<longleftrightarrow> x (ps a) = x (ps b) \<and> y (ps a) = y (ps b)"

definition touching :: "store \<Rightarrow> nat \<Rightarrow> nat \<Rightarrow> bool" where
  "touching ps a b \<longleftrightarrow>
     slot_ok ps a \<and> slot_ok ps b \<and> squaredDistance (ps a) (ps b) \<le> 0"

definition chained :: "store \<Rightarrow> nat \<Rightarrow> nat \<Rightarrow> bool" where
  "chained ps = (touching ps)\<^sup>*\<^sup>*"

text \<open>
  With \<open>epsilonSquared = 0\<close> a cluster never leaves the chains of its seed.
  \<open>home\<close> maps a cluster id to the slot that seeded it; every slot carrying the id
  and every activation working for it is chained to that slot.
\<close>

definition frame_placed :: "store \<Rightarrow> (int \<Rightarrow> nat) \<Rightarrow> frame \<Rightarrow> bool" where
  "frame_placed ps home f \<longleftrightarrow>
     chained ps (pointIndex f) (home (cluster f)) \<and>
     (\<forall>q \<in> set (neighbors f). chained ps q (home (cluster f))) \<and>
     (pc f = Check \<or> pc f = Claim \<longrightarrow> loop_i f < length (neighbors f))"

definition worker_placed :: "store \<Rightarrow> (int \<Rightarrow> nat) \<Rightarrow> nat \<times> worker \<Rightarrow> bool" where
  "worker_placed ps home e \<longleftrightarrow>
     (\<forall>f \<in> set (frames_of (snd e)). frame_placed ps home f) \<and>
     (pending (snd e) \<longrightarrow> (\<forall>q \<in> set (reported (snd e)). chained ps q (fst e)))"









text \<open>The cluster counter never exceeds the number of calls of \<^verbatim>\<open>expandCluster\<close>.\<close>

definition counter_ok :: "dbscan_state \<Rightarrow> bool" where
  "counter_ok s \<longleftrightarrow> 0 \<le> nextClusterId s \<and> nextClusterId s \<le> int (length (calls s))"

section \<open>Concrete inputs\<close>

text \<open>A file with the two lines \<^verbatim>\<open>1 0\<close> and \<^verbatim>\<open>2 0\<close>, loaded.\<close>

definition two_points :: store where
  "two_points = points0(0 := mkPoint 1 0, 1 := mkPoint 2 0)"

text \<open>A file with the three lines \<^verbatim>\<open>1 0\<close>, \<^verbatim>\<open>2 0\<close> and \<^verbatim>\<open>3 0\<close>, loaded.\<close>

definition three_points :: store where
  "three_points = points0(0 := mkPoint 1 0, 1 := mkPoint 2 0, 2 := mkPoint 3 0)"



text \<open>A file with the single line \<^verbatim>\<open>1 1\<close>.\<close>

definition one_point :: store where
  "one_point = points0(0 := mkPoint 1 1)"

text \<open>Seventeen points in a row: \<^verbatim>\<open>1 0\<close>, \<^verbatim>\<open>2 0\<close>, ..., \<^verbatim>\<open>17 0\<close>.\<close>

definition row17 :: store where
  "row17 = (\<lambda>i. if i < 17 then mkPoint (real i + 1) 0 else mkPoint 0 0)"

section \<open>Rounding\<close>

lemma log2_powi: "log 2 (2 powi e) = of_int e"
proof -
  have "(2::real) powi e = 2 powr of_int e"
    by (simp add: powr_real_of_int')
  then show ?thesis
    by simp
qed

lemma floor_log2:
  assumes "2 powi e \<le> r" and "r < 2 powi (e + 1)"
  shows "\<lfloor>log 2 r\<rfloor> = e"
proof -
  have "(0::real) < 2 powi e"
    by simp
  then have pos: "0 < r"
    using assms(1) by linarith
  have "log 2 (2 powi e) \<le> log 2 r"
    using assms(1) pos by (intro log_mono) simp_all
  moreover have "log 2 r < log 2 (2 powi (e + 1))"
    using assms(2) pos by (intro log_less) simp_all
  ultimately show ?thesis
    by (simp add: log2_powi floor_eq_iff)
qed

lemma quantum_binade:
  assumes "2 powi e \<le> \<bar>r\<bar>" and "\<bar>r\<bar> < 2 powi (e + 1)"
  shows "quantum r = 2 powi (max (e - 52) (- 1074))"
  by (simp add: quantum_def floor_log2[OF assms])

lemma nearest_even_down:
  assumes "of_int f \<le> t" and "t < of_int f + 1 / 2"
  shows "nearest_even t = f"
proof -
  have "\<lfloor>t\<rfloor> = f"
    using assms by (simp add: floor_eq_iff)
  then show ?thesis
    using assms by (simp add: nearest_even_def)
qed


lemma round_double_down:
  assumes "2 powi e \<le> \<bar>r\<bar>" and "\<bar>r\<bar> < 2 powi (e + 1)"
    and "of_int m \<le> r / 2 powi (max (e - 52) (- 1074))"
    and "r / 2 powi (max (e - 52) (- 1074)) < of_int m + 1 / 2"
  shows "round_double r = 2 powi (max (e - 52) (- 1074)) * of_int m"
proof -
  have "(0::real) < 2 powi e"
    by simp
  then have "r \<noteq> 0"
    using assms(1) by linarith
  then show ?thesis
    by (simp add: round_double_def quantum_binade[OF assms(1,2)] nearest_even_down[OF assms(3,4)])
qed

lemma round_double_0 [simp]: "round_double 0 = 0"
  by (simp add: round_double_def)

lemma round_double_1: "round_double 1 = 1"
  using round_double_down[of 0 1 "2 ^ 52"] by simp

lemma round_double_m1: "round_double (- 1) = - 1"
  using round_double_down[of 0 "- 1" "- (2 ^ 52)"] by simp

lemma round_double_2: "round_double 2 = 2"
  using round_double_down[of 1 2 "2 ^ 52"] by simp

lemma round_double_m2: "round_double (- 2) = - 2"
  using round_double_down[of 1 "- 2" "- (2 ^ 52)"] by simp

lemma round_double_4: "round_double 4 = 4"
  using round_double_down[of 2 4 "2 ^ 52"] by simp


lemma round_double_25_4: "round_double (25 / 4) = 25 / 4"
  using round_double_down[of 2 "25 / 4" "25 * 2 ^ 48"] by simp

lemmas double_simps = double_minus_def double_times_def double_plus_def
  round_double_0 round_double_1 round_double_m1 round_double_2 round_double_m2 round_double_4
  round_double_25_4




text \<open>
  The rounding is visible in \<^verbatim>\<open>squaredDistance\<close>. The points (3.5, 1) and
  (1 - 2 ^ (- 53), 1) are more than 2.5 apart, and the computed squared distance is
  6.25. The points (2 ^ (- 540), 0) and (2 ^ (- 539), 0) differ, and the computed
  squared distance is 0.
\<close>

lemma squaredDistance_rounds:
  "squaredDistance (mkPoint (7 / 2) 1) (mkPoint (1 - 2 powi (- 53)) 1) = 25 / 4"
proof -
  have dx: "double_minus (7 / 2) (1 - 2 powi (- 53)) = 5 / 2"
    unfolding double_minus_def
    using round_double_down[of 1 "7 / 2 - (1 - 2 powi (- 53))" "5 * 2 ^ 50"] by simp
  have dy: "double_minus 1 1 = 0"
    by (simp add: double_simps)
  have sq: "double_times (5 / 2) (5 / 2) = 25 / 4" "double_times 0 0 = 0"
    by (simp_all add: double_simps)
  have "double_plus (25 / 4) 0 = 25 / 4"
    by (simp add: double_simps)
  then show ?thesis
    by (simp only: squaredDistance_def mkPoint_def Point.select_convs dx dy sq)
qed

lemma squaredDistance_underflows:
  "squaredDistance (mkPoint (2 powi (- 540)) 0) (mkPoint (2 powi (- 539)) 0) = 0"
proof -
  have dx: "double_minus (2 powi (- 540)) (2 powi (- 539)) = - (2 powi (- 540))"
    unfolding double_minus_def
    using round_double_down[of "- 540" "2 powi (- 540) - 2 powi (- 539)" "- (2 ^ 52)"] by simp
  have dy: "double_minus 0 0 = 0"
    by (simp add: double_simps)
  have sq: "double_times (- (2 powi (- 540))) (- (2 powi (- 540))) = 0"
    unfolding double_times_def
    using round_double_down[of "- 1080" "- (2 powi (- 540)) * - (2 powi (- 540))" 0] by simp
  have "double_plus 0 (double_times 0 0) = 0"
    by (simp add: double_simps)
  then show ?thesis
    by (simp only: squaredDistance_def mkPoint_def Point.select_convs dx dy sq)
qed

lemma squaredDistance_self [simp]: "squaredDistance p p = 0"
  by (simp add: squaredDistance_def double_minus_def double_times_def double_plus_def)


section \<open>The neighbour search as a filter\<close>

lemma loop_stop:
  "\<not> (i < MAX_POINTS \<and> int count < maxN) \<Longrightarrow>
   findNeighbors_loop ps p e maxN i buf count = Some (buf, count)"
  by (subst findNeighbors_loop.simps) auto

lemma loop_skip:
  "i < MAX_POINTS \<Longrightarrow> int count < maxN \<Longrightarrow> \<not> accepted ps p e i \<Longrightarrow>
   findNeighbors_loop ps p e maxN i buf count = findNeighbors_loop ps p e maxN (i + 1) buf count"
  by (subst findNeighbors_loop.simps) (auto simp: accepted_def)

lemma loop_store:
  "i < MAX_POINTS \<Longrightarrow> int count < maxN \<Longrightarrow> accepted ps p e i \<Longrightarrow>
   findNeighbors_loop ps p e maxN i buf count =
     (if count < length buf
      then findNeighbors_loop ps p e maxN (i + 1) (buf[count := i]) (count + 1) else None)"
  by (subst findNeighbors_loop.simps) (auto simp: accepted_def)

lemma scanned_step:
  "i < MAX_POINTS \<Longrightarrow> scanned ps p e i =
     (if accepted ps p e i then i # scanned ps p e (Suc i) else scanned ps p e (Suc i))"
  by (simp add: scanned_def upt_conv_Cons)

lemma scanned_end: "MAX_POINTS \<le> i \<Longrightarrow> scanned ps p e i = []"
  by (simp add: scanned_def)

lemma findNeighbors_loop_char:
  "nat maxN \<le> length buf \<Longrightarrow> count \<le> nat maxN \<Longrightarrow>
   findNeighbors_loop ps p e maxN i buf count =
     Some (take count buf @ take (nat maxN - count) (scanned ps p e i)
             @ drop (count + length (take (nat maxN - count) (scanned ps p e i))) buf,
           count + length (take (nat maxN - count) (scanned ps p e i)))"
proof (induction "MAX_POINTS - i" arbitrary: i buf count)
  case 0
  then have "scanned ps p e i = []" by (simp add: scanned_end)
  moreover have "findNeighbors_loop ps p e maxN i buf count = Some (buf, count)"
    using 0 by (intro loop_stop) simp
  ultimately show ?case by simp
next
  case (Suc n)
  then have i: "i < MAX_POINTS" and n: "n = MAX_POINTS - (i + 1)" by auto
  show ?case
  proof (cases "int count < maxN")
    case False
    then have "nat maxN - count = 0" using Suc.prems by auto
    moreover have "findNeighbors_loop ps p e maxN i buf count = Some (buf, count)"
      using False by (intro loop_stop) simp
    ultimately show ?thesis by simp
  next
    case True
    then have lt: "count < length buf" "count < nat maxN" using Suc.prems by auto
    show ?thesis
    proof (cases "accepted ps p e i")
      case False
      then have sc: "scanned ps p e i = scanned ps p e (i + 1)"
        using i by (simp add: scanned_step)
      show ?thesis
        unfolding loop_skip[OF i True False] sc
        by (rule Suc.hyps(1)[OF n Suc.prems])
    next
      case acc: True
      have sc: "scanned ps p e i = i # scanned ps p e (i + 1)"
        using i acc by (simp add: scanned_step)
      have p1: "nat maxN \<le> length (buf[count := i])" using Suc.prems by simp
      have p2: "count + 1 \<le> nat maxN" using lt by simp
      have tk: "take (nat maxN - count) (i # scanned ps p e (i + 1))
                 = i # take (nat maxN - (count + 1)) (scanned ps p e (i + 1))"
      proof -
        have "nat maxN - count = Suc (nat maxN - (count + 1))" using lt by simp
        then show ?thesis by (simp only: take_Suc_Cons)
      qed
      have tb: "take (count + 1) (buf[count := i]) = take count buf @ [i]"
        using lt by (simp add: take_Suc_conv_app_nth)
      have "findNeighbors_loop ps p e maxN i buf count =
              findNeighbors_loop ps p e maxN (i + 1) (buf[count := i]) (count + 1)"
        using loop_store[OF i True acc] lt by simp
      also note Suc.hyps(1)[OF n p1 p2]
      finally show ?thesis
        unfolding sc tk tb by simp
    qed
  qed
qed


lemma findNeighbors_char:
  assumes "nat maxN \<le> length buf"
  shows "findNeighbors ps p e buf maxN =
     Some (take (nat maxN) (scanned ps p e 0)
             @ drop (length (take (nat maxN) (scanned ps p e 0))) buf,
           length (take (nat maxN) (scanned ps p e 0)))"
  unfolding findNeighbors_def
  using findNeighbors_loop_char[OF assms, of 0 ps p e 0] by simp

lemma scanned_below: "j \<in> set (scanned ps p e i) \<Longrightarrow> j < MAX_POINTS"
  by (simp add: scanned_def)

lemma length_scanned: "length (scanned ps p e i) \<le> MAX_POINTS"
proof -
  have "length (scanned ps p e i) \<le> length [i..<MAX_POINTS]"
    unfolding scanned_def by (rule length_filter_le)
  then show ?thesis by simp
qed

lemma query_char: "query ps p e = Some (scanned ps p e 0)"
proof -
  have "length (scanned ps p e 0) \<le> MAX_NEIGHBORS"
    using length_scanned[of ps p e 0] by (simp add: MAX_POINTS_def MAX_NEIGHBORS_def)
  then show ?thesis
    by (simp add: query_def findNeighbors_char)
qed

text \<open>
  \<^verbatim>\<open>expandCluster\<close> passes the same buffer to every query of one activation. What
  the caller reads does not depend on what the buffer held before.
\<close>

lemma query_any_buffer:
  assumes "length buf = MAX_NEIGHBORS"
    and "findNeighbors ps p e buf (int MAX_NEIGHBORS) = Some (b, c)"
  shows "query ps p e = Some (take c b)"
proof -
  have "length (scanned ps p e 0) \<le> MAX_NEIGHBORS"
    using length_scanned[of ps p e 0] by (simp add: MAX_POINTS_def MAX_NEIGHBORS_def)
  then show ?thesis
    using assms by (auto simp: findNeighbors_char query_char)
qed

lemma scanned_loaded:
  assumes "n \<le> MAX_POINTS" and "\<And>j. n \<le> j \<Longrightarrow> \<not> initialized ps j"
  shows "scanned ps p e 0 = filter (accepted ps p e) [0..<n]"
proof -
  have "[0..<MAX_POINTS] = [0..<n] @ [n..<MAX_POINTS]"
    using assms(1) by (metis le_add_diff_inverse upt_add_eq_append zero_le)
  moreover have "filter (accepted ps p e) [n..<MAX_POINTS] = []"
    using assms(2) by (auto simp: filter_empty_conv accepted_def initialized_def)
  ultimately show ?thesis by (simp add: scanned_def)
qed

lemma two_points_scanned: "scanned two_points (two_points 0) 1 0 = [0, 1]"
proof -
  have "scanned two_points (two_points 0) 1 0 = filter (accepted two_points (two_points 0) 1) [0..<2]"
    by (rule scanned_loaded) (simp_all add: MAX_POINTS_def two_points_def points0_def mkPoint_def initialized_def)
  also have "\<dots> = [0, 1]"
    by (simp add: upt_rec accepted_def two_points_def points0_def mkPoint_def squaredDistance_def
          double_simps)
  finally show ?thesis .
qed


section \<open>Claims about the neighbour search\<close>

text \<open>
  C10. A call of \<^verbatim>\<open>findNeighbors\<close> whose buffer has room for \<^verbatim>\<open>maxNeighbors\<close>
  entries returns normally (no write leaves the buffer), the returned count lies
  between 0 and \<^verbatim>\<open>maxNeighbors\<close>, the entries below the count are slot numbers
  below \<^verbatim>\<open>MAX_POINTS\<close>, and the entries from the count on are as the caller left
  them.
\<close>

theorem findNeighbors_in_bounds:
  assumes "0 \<le> maxN" and "nat maxN \<le> length buf"
  shows "\<exists>buf' count. findNeighbors ps p e buf maxN = Some (buf', count)
           \<and> int count \<le> maxN \<and> length buf' = length buf
           \<and> (\<forall>k<count. buf' ! k < MAX_POINTS)
           \<and> (\<forall>k. count \<le> k \<longrightarrow> k < length buf \<longrightarrow> buf' ! k = buf ! k)"
proof -
  define new where "new = take (nat maxN) (scanned ps p e 0)"
  have len: "length new \<le> nat maxN" by (simp add: new_def)
  have eq: "findNeighbors ps p e buf maxN = Some (new @ drop (length new) buf, length new)"
    unfolding new_def by (rule findNeighbors_char[OF assms(2)])
  have "set new \<subseteq> set (scanned ps p e 0)" unfolding new_def by (rule set_take_subset)
  then have below: "\<forall>k<length new. new ! k < MAX_POINTS"
    using scanned_below nth_mem by blast
  have "int (length new) \<le> maxN" using len assms(1) by linarith
  moreover have "length (new @ drop (length new) buf) = length buf"
    using len assms(2) by simp
  moreover have "\<forall>k<length new. (new @ drop (length new) buf) ! k < MAX_POINTS"
    using below by (simp add: nth_append)
  moreover have "\<forall>k. length new \<le> k \<longrightarrow> k < length buf \<longrightarrow>
                   (new @ drop (length new) buf) ! k = buf ! k"
    by (simp add: nth_append)
  ultimately show ?thesis using eq by blast
qed

theorem findNeighbors_in_bounds_witness:
  "(0::int) \<le> 1 \<and> nat 1 \<le> length [5::nat] \<and>
   (\<exists>buf' count. findNeighbors two_points (two_points 0) 1 [5] 1 = Some (buf', count)
           \<and> int count \<le> 1 \<and> length buf' = length [5::nat]
           \<and> (\<forall>k<count. buf' ! k < MAX_POINTS)
           \<and> (\<forall>k. count \<le> k \<longrightarrow> k < length [5::nat] \<longrightarrow> buf' ! k = [5] ! k))"
  using findNeighbors_in_bounds[of 1 "[5]" two_points "two_points 0" 1] by simp


text \<open>
  C3, as stated, fails: a query whose result is larger than \<^verbatim>\<open>maxNeighbors\<close>
  returns normally with the first \<^verbatim>\<open>maxNeighbors\<close> slots. Slots 0 and 1 of
  \<open>two_points\<close> are both within distance 1 of slot 0; with room for one
  neighbour the call returns count 1 and reports nothing.
\<close>

theorem findNeighbors_truncates_silently:
  "scanned two_points (two_points 0) 1 0 = [0, 1] \<and>
   findNeighbors two_points (two_points 0) 1 [5] 1 = Some ([0], 1)"
  by (simp add: two_points_scanned findNeighbors_char)


text \<open>
  C3, amended. When more slots are accepted than \<^verbatim>\<open>maxNeighbors\<close> allows, the
  call returns normally: the count is \<^verbatim>\<open>maxNeighbors\<close> and the buffer starts with
  the first \<^verbatim>\<open>maxNeighbors\<close> accepted slots in scan order. No error is reported.
\<close>

theorem findNeighbors_truncation:
  assumes "0 \<le> maxN" and "nat maxN \<le> length buf"
    and "nat maxN < length (scanned ps p e 0)"
  shows "findNeighbors ps p e buf maxN =
           Some (take (nat maxN) (scanned ps p e 0) @ drop (nat maxN) buf, nat maxN)"
  using assms by (simp add: findNeighbors_char min_def)

theorem findNeighbors_truncation_witness:
  "(0::int) \<le> 1 \<and> nat 1 \<le> length [5::nat]
   \<and> nat 1 < length (scanned two_points (two_points 0) 1 0)
   \<and> findNeighbors two_points (two_points 0) 1 [5] 1 =
       Some (take (nat 1) (scanned two_points (two_points 0) 1 0) @ drop (nat 1) [5], nat 1)"
  using findNeighbors_truncation[of 1 "[5]" two_points "two_points 0" 1]
  by (simp add: two_points_scanned)

section \<open>Steps of the workers\<close>

lemma accepted_set_visited [simp]: "accepted (set_visited ps q) p e = accepted ps p e"
  by (rule ext) (simp add: accepted_def set_visited_def squaredDistance_def)

lemma accepted_set_clusterId [simp]: "accepted (set_clusterId ps q c) p e = accepted ps p e"
  by (rule ext) (simp add: accepted_def set_clusterId_def squaredDistance_def)

lemma scanned_set_visited [simp]: "scanned (set_visited ps q) p e i = scanned ps p e i"
  by (simp add: scanned_def)

lemma scanned_set_clusterId [simp]: "scanned (set_clusterId ps q c) p e i = scanned ps p e i"
  by (simp add: scanned_def)

lemma initialized_set_visited [simp]: "initialized (set_visited ps q) = initialized ps"
  by (rule ext) (simp add: initialized_def set_visited_def)

lemma initialized_set_clusterId [simp]: "initialized (set_clusterId ps q c) = initialized ps"
  by (rule ext) (simp add: initialized_def set_clusterId_def)

lemma set_visited_simps [simp]:
  "visited (set_visited ps q j) = (j = q \<or> visited (ps j))"
  "clusterId (set_visited ps q j) = clusterId (ps j)"
  "x (set_visited ps q j) = x (ps j)"
  "y (set_visited ps q j) = y (ps j)"
  by (simp_all add: set_visited_def)

lemma set_clusterId_simps [simp]:
  "visited (set_clusterId ps q c j) = visited (ps j)"
  "clusterId (set_clusterId ps q c j) = (if j = q then c else clusterId (ps j))"
  "x (set_clusterId ps q c j) = x (ps j)"
  "y (set_clusterId ps q c j) = y (ps j)"
  by (simp_all add: set_clusterId_def)

lemma accepted_point_cong:
  "x p = x p' \<Longrightarrow> y p = y p' \<Longrightarrow> accepted ps p e = accepted ps p' e"
  by (rule ext) (simp add: accepted_def squaredDistance_def)

lemma scanned_point_cong:
  "x p = x p' \<Longrightarrow> y p = y p' \<Longrightarrow> scanned ps p e i = scanned ps p' e i"
  unfolding scanned_def using accepted_point_cong[of p p'] by simp

lemma scanned_self_visited [simp]:
  "scanned ps (set_visited ps q j) e i = scanned ps (ps j) e i"
  by (rule scanned_point_cong) simp_all

lemma visit_char:
  "visit s q = Some (s\<lparr>points := set_visited (points s) q\<rparr>,
     if minPts s \<le> int (length (around s q)) then Some (around s q) else None)"
  by (simp add: visit_def query_char)

lemma processPoint_cases [consumes 1, case_names acquire seen sparse core increment
    finish assign return skip border recurse unclaimed claimed claim release]:
  assumes "processPoint s k w = Some (u, w')"
  obtains
    "w = AtAcquire" "0 < thread_limiter s"
      "u = s\<lparr>thread_limiter := thread_limiter s - 1\<rparr>" "w' = AtExchange"
  | "w = AtExchange" "visited (points s k)" "u = s" "w' = AtRelease"
  | "w = AtExchange" "\<not> visited (points s k)" "\<not> minPts s \<le> int (length (around s k))"
      "u = s\<lparr>points := set_visited (points s) k\<rparr>" "w' = AtRelease"
  | "w = AtExchange" "\<not> visited (points s k)" "minPts s \<le> int (length (around s k))"
      "u = s\<lparr>points := set_visited (points s) k\<rparr>" "w' = AtIncrement (around s k)"
  | ns where "w = AtIncrement ns"
      "u = s\<lparr>nextClusterId := nextClusterId s + 1, calls := calls s @ [k]\<rparr>"
      "w' = InExpand [\<lparr>pointIndex = k, neighbors = ns, cluster = nextClusterId s + 1,
                       loop_i = 0, pc = Assign\<rparr>]"
  | "w = InExpand []" "u = s" "w' = AtRelease"
  | f fs where "w = InExpand (f # fs)" "pc f = Assign"
      "u = s\<lparr>points := set_clusterId (points s) (pointIndex f) (cluster f)\<rparr>"
      "w' = InExpand (f\<lparr>pc := Visit\<rparr> # fs)"
  | f fs where "w = InExpand (f # fs)" "pc f = Visit" "\<not> loop_i f < length (neighbors f)"
      "u = s" "w' = InExpand fs"
  | f fs where "w = InExpand (f # fs)" "pc f = Visit" "loop_i f < length (neighbors f)"
      "visited (points s (neighbors f ! loop_i f))"
      "u = s" "w' = InExpand (f\<lparr>pc := Check\<rparr> # fs)"
  | f fs where "w = InExpand (f # fs)" "pc f = Visit" "loop_i f < length (neighbors f)"
      "\<not> visited (points s (neighbors f ! loop_i f))"
      "\<not> minPts s \<le> int (length (around s (neighbors f ! loop_i f)))"
      "u = s\<lparr>points := set_visited (points s) (neighbors f ! loop_i f)\<rparr>"
      "w' = InExpand (f\<lparr>pc := Check\<rparr> # fs)"
  | f fs where "w = InExpand (f # fs)" "pc f = Visit" "loop_i f < length (neighbors f)"
      "\<not> visited (points s (neighbors f ! loop_i f))"
      "minPts s \<le> int (length (around s (neighbors f ! loop_i f)))"
      "u = s\<lparr>points := set_visited (points s) (neighbors f ! loop_i f),
              calls := calls s @ [neighbors f ! loop_i f]\<rparr>"
      "w' = InExpand (\<lparr>pointIndex = neighbors f ! loop_i f,
                        neighbors = around s (neighbors f ! loop_i f),
                        cluster = cluster f, loop_i = 0, pc = Assign\<rparr>
                      # f\<lparr>pc := Check\<rparr> # fs)"
  | f fs where "w = InExpand (f # fs)" "pc f = Check"
      "clusterId (points s (neighbors f ! loop_i f)) = 0"
      "u = s" "w' = InExpand (f\<lparr>pc := Claim\<rparr> # fs)"
  | f fs where "w = InExpand (f # fs)" "pc f = Check"
      "clusterId (points s (neighbors f ! loop_i f)) \<noteq> 0"
      "u = s" "w' = InExpand (f\<lparr>loop_i := loop_i f + 1, pc := Visit\<rparr> # fs)"
  | f fs where "w = InExpand (f # fs)" "pc f = Claim"
      "u = s\<lparr>points := set_clusterId (points s) (neighbors f ! loop_i f) (cluster f)\<rparr>"
      "w' = InExpand (f\<lparr>loop_i := loop_i f + 1, pc := Visit\<rparr> # fs)"
  | "w = AtRelease" "u = s\<lparr>thread_limiter := thread_limiter s + 1\<rparr>" "w' = Finished"
proof (cases w)
  case AtAcquire
  then show ?thesis using assms that(1) by (auto split: if_splits)
next
  case AtExchange
  then show ?thesis using assms that(2,3,4)
    by (auto simp: visit_char split: if_splits)
next
  case (AtIncrement ns)
  then show ?thesis using assms that(5) by (auto simp: Let_def)
next
  case (InExpand stack)
  show ?thesis
  proof (cases stack)
    case Nil
    then show ?thesis using InExpand assms that(6) by auto
  next
    case (Cons f fs)
    show ?thesis
    proof (cases "pc f")
      case Assign
      then show ?thesis using InExpand Cons assms that(7)
        by (auto simp: expand_step_def)
    next
      case Visit
      then show ?thesis using InExpand Cons assms that(8,9,10,11)
        by (auto simp: expand_step_def visit_char Let_def split: if_splits)
    next
      case Check
      then show ?thesis using InExpand Cons assms that(12,13)
        by (auto simp: expand_step_def split: if_splits)
    next
      case Claim
      then show ?thesis using InExpand Cons assms that(14)
        by (auto simp: expand_step_def)
    qed
  qed
next
  case AtRelease
  then show ?thesis using assms that(15) by auto
next
  case Finished
  then show ?thesis using assms by auto
qed

lemma step_unfold:
  assumes "step s t = Some s'"
  obtains k w u w' where "t < length (workers s)" "workers s ! t = (k, w)"
    "processPoint s k w = Some (u, w')" "s' = u\<lparr>workers := (workers u)[t := (k, w')]\<rparr>"
  using assms unfolding step_def
  by (cases "workers s ! t") (auto split: if_splits option.splits)

lemma run_invariant:
  assumes "run sched s0 = Some s" and "P s0"
    and "\<And>s t s'. P s \<Longrightarrow> step s t = Some s' \<Longrightarrow> P s'"
  shows "P s"
  using assms(1,2)
proof (induction sched arbitrary: s0)
  case Nil
  then show ?case by simp
next
  case (Cons t ts)
  then show ?case using assms(3) by (auto split: option.splits)
qed

lemma in_set_updD: "e \<in> set (xs[i := v]) \<Longrightarrow> e = v \<or> e \<in> set xs"
  using set_update_subset_insert[of xs i v] by auto

lemma step_static:
  assumes "step s t = Some s'"
  shows "epsilonSquared s' = epsilonSquared s" and "minPts s' = minPts s"
    and "map fst (workers s') = map fst (workers s)"
    and "x (points s' j) = x (points s j)" and "y (points s' j) = y (points s j)"
    and "visited (points s j) \<Longrightarrow> visited (points s' j)"
proof -
  from assms obtain k w u w' where t: "t < length (workers s)" "workers s ! t = (k, w)"
    "processPoint s k w = Some (u, w')" "s' = u\<lparr>workers := (workers u)[t := (k, w')]\<rparr>"
    by (rule step_unfold)
  have fst: "(map fst (workers s))[t := k] = map fst (workers s)"
    using t(1,2) by (metis fst_conv length_map list_update_id nth_map)
  from t(3) show "epsilonSquared s' = epsilonSquared s"
    by (cases rule: processPoint_cases) (simp_all add: t(4))
  from t(3) show "minPts s' = minPts s"
    by (cases rule: processPoint_cases) (simp_all add: t(4))
  from t(3) show "map fst (workers s') = map fst (workers s)"
    by (cases rule: processPoint_cases) (simp_all add: t(4) map_update fst)
  from t(3) show "x (points s' j) = x (points s j)"
    by (cases rule: processPoint_cases) (simp_all add: t(4))
  from t(3) show "y (points s' j) = y (points s j)"
    by (cases rule: processPoint_cases) (simp_all add: t(4))
  from t(3) show "visited (points s j) \<Longrightarrow> visited (points s' j)"
    by (cases rule: processPoint_cases) (simp_all add: t(4))
qed


section \<open>Running the workers on concrete inputs\<close>

lemma loaded_slots:
  assumes "n \<le> MAX_POINTS" and "\<And>j. n \<le> j \<Longrightarrow> \<not> initialized ps j"
  shows "filter (initialized ps) [0..<MAX_POINTS] = filter (initialized ps) [0..<n]"
proof -
  have "[0..<MAX_POINTS] = [0..<n] @ [n..<MAX_POINTS]"
    using assms(1) by (metis le_add_diff_inverse upt_add_eq_append zero_le)
  moreover have "filter (initialized ps) [n..<MAX_POINTS] = []"
    using assms(2) by (auto simp: filter_empty_conv)
  ultimately show ?thesis by simp
qed

lemmas store_simps = points0_def mkPoint_def initialized_def accepted_def squaredDistance_def
  double_simps

lemmas run_simps = step_def expand_step_def visit_char joined_def

lemma upt_2: "[0..<2] = [0, 1::nat]"
  by (simp add: upt_rec)

lemma upt_3: "[0..<3] = [0, 1, 2::nat]"
  by (simp add: upt_rec)

lemma load_two_points: "load [(1, 0), (2, 0)] = (two_points, 2)"
  by (simp add: load_def two_points_def MAX_POINTS_def)

lemma two_points_at: "two_points 0 = mkPoint 1 0" "two_points (Suc 0) = mkPoint 2 0"
  by (simp_all add: two_points_def)

lemma two_points_slots: "filter (initialized two_points) [0..<MAX_POINTS] = [0, 1]"
proof -
  have "filter (initialized two_points) [0..<MAX_POINTS] = filter (initialized two_points) [0..<2]"
    by (rule loaded_slots) (simp_all add: MAX_POINTS_def two_points_def store_simps)
  also have "\<dots> = [0, 1]"
    by (simp add: upt_2 two_points_def store_simps)
  finally show ?thesis .
qed

lemma two_points_around: "scanned two_points p e 0 = filter (accepted two_points p e) [0, 1]"
proof -
  have "scanned two_points p e 0 = filter (accepted two_points p e) [0..<2]"
    by (rule scanned_loaded) (simp_all add: MAX_POINTS_def two_points_def store_simps)
  then show ?thesis by (simp only: upt_2)
qed

lemmas two_points_simps = dbscan_def two_points_slots two_points_around two_points_at

lemma load_three_points: "load [(1, 0), (2, 0), (3, 0)] = (three_points, 3)"
  by (simp add: load_def three_points_def MAX_POINTS_def numeral_2_eq_2)

lemma three_points_at:
  "three_points 0 = mkPoint 1 0" "three_points (Suc 0) = mkPoint 2 0" "three_points 2 = mkPoint 3 0"
  by (simp_all add: three_points_def)

lemma three_points_slots: "filter (initialized three_points) [0..<MAX_POINTS] = [0, 1, 2]"
proof -
  have "filter (initialized three_points) [0..<MAX_POINTS] = filter (initialized three_points) [0..<3]"
    by (rule loaded_slots) (simp_all add: MAX_POINTS_def three_points_def store_simps)
  also have "\<dots> = [0, 1, 2]"
    by (simp add: upt_3 three_points_def store_simps)
  finally show ?thesis .
qed

lemma three_points_around: "scanned three_points p e 0 = filter (accepted three_points p e) [0, 1, 2]"
proof -
  have "scanned three_points p e 0 = filter (accepted three_points p e) [0..<3]"
    by (rule scanned_loaded) (simp_all add: MAX_POINTS_def three_points_def store_simps)
  then show ?thesis by (simp only: upt_3)
qed

lemmas three_points_simps = dbscan_def three_points_slots three_points_around three_points_at

section \<open>Claims about the labels under concurrency\<close>

text \<open>
  C1. The claim says that a point is claimed by one indivisible compare-and-swap, so
  that at most one cluster id ever wins it. The code loads \<^verbatim>\<open>p.clusterId\<close> at line
  81 and stores at line 82, and other workers may run in between. On the file
  \<open>three_points\<close> with \<^verbatim>\<open>dbscan(1, 2)\<close>: worker 1 marks slot 1 visited and
  pauses; worker 0 (cluster 1) and worker 2 (cluster 2) both reach slot 1, both load
  label 0 and stand at line 82; then worker 0 stores 1 into slot 1 and worker 2
  stores 2 over it. The theorem evaluates this interleaving.
\<close>

theorem both_claims_succeed:
  "load [(1, 0), (2, 0), (3, 0)] = (three_points, 3) \<and>
   map_option
     (\<lambda>s. (clusterId (points s 1),
           map (\<lambda>f. (neighbors f ! loop_i f, cluster f, pc f)) (frames_of (snd (workers s ! 0))),
           map (\<lambda>f. (neighbors f ! loop_i f, cluster f, pc f)) (frames_of (snd (workers s ! 2)))))
     (run [1, 1, 0, 0, 0, 0, 0, 0, 0, 0, 2, 2, 2, 2, 2, 2] (dbscan three_points 1 2))
     = Some (0, [(1, 1, Claim)], [(1, 2, Claim)]) \<and>
   map_option (\<lambda>s. clusterId (points s 1))
     (run [1, 1, 0, 0, 0, 0, 0, 0, 0, 0, 2, 2, 2, 2, 2, 2, 0] (dbscan three_points 1 2)) = Some 1 \<and>
   map_option (\<lambda>s. clusterId (points s 1))
     (run [1, 1, 0, 0, 0, 0, 0, 0, 0, 0, 2, 2, 2, 2, 2, 2, 0, 2] (dbscan three_points 1 2)) = Some 2"
  by (simp add: load_three_points three_points_simps run_simps store_simps)

text \<open>
  C2. The claim says that a slot holding \<open>Cluster(id)\<close> never changes its label.
  Line 64 stores the cluster id without a test. On the file \<open>two_points\<close> with
  \<^verbatim>\<open>dbscan(2.5, 2)\<close>: worker 0 marks slot 0 visited and pauses; worker 1 runs to
  its end and claims slot 0 for cluster 1; worker 0 then takes cluster id 2 and
  line 64 overwrites the label of slot 0 with 2. At the join the two points, which
  are neighbours, carry different cluster ids.
\<close>

theorem assignment_overwrites_cluster:
  "load [(1, 0), (2, 0)] = (two_points, 2) \<and>
   map_option (\<lambda>s. clusterId (points s 0))
     (run [0, 0, 1, 1, 1, 1, 1, 1, 1, 1, 1, 1, 1, 1, 0] (dbscan two_points (5 / 2) 2)) = Some 1 \<and>
   map_option (\<lambda>s. clusterId (points s 0))
     (run [0, 0, 1, 1, 1, 1, 1, 1, 1, 1, 1, 1, 1, 1, 0, 0] (dbscan two_points (5 / 2) 2)) = Some 2 \<and>
   map_option (\<lambda>s. (joined s, clusterId (points s 0), clusterId (points s 1)))
     (run [0, 0, 1, 1, 1, 1, 1, 1, 1, 1, 1, 1, 1, 1, 0, 0, 0, 0, 0, 0, 0, 0, 0]
       (dbscan two_points (5 / 2) 2)) = Some (True, 2, 1)"
  by (simp add: load_two_points two_points_simps run_simps store_simps)

section \<open>Claim about the result of the neighbour search\<close>







section \<open>Claims about the whole run\<close>

lemma load_loop_char:
  assumes "load_loop inp c ps = (ps', n)" and "c \<le> MAX_POINTS"
  shows "n = min (c + length inp) MAX_POINTS \<and>
         (\<forall>i. ps' i = (if c \<le> i \<and> i < n then mkPoint (fst (inp ! (i - c))) (snd (inp ! (i - c)))
                        else ps i))"
  using assms
proof (induction inp arbitrary: c ps)
  case Nil
  then show ?case by auto
next
  case (Cons ab rest)
  obtain a b where ab: "ab = (a, b)" by (cases ab)
  show ?case
  proof (cases "c < MAX_POINTS")
    case False
    then show ?thesis using Cons.prems ab by auto
  next
    case True
    then have rec: "load_loop rest (c + 1) (ps(c := mkPoint a b)) = (ps', n)"
      using Cons.prems ab by simp
    have le: "c + 1 \<le> MAX_POINTS" using True by simp
    note ih = Cons.IH[OF rec le]
    have n: "n = min (c + length (ab # rest)) MAX_POINTS" using ih by simp
    have "c < n" using ih True by simp
    have "ps' i = (if c \<le> i \<and> i < n
                   then mkPoint (fst ((ab # rest) ! (i - c))) (snd ((ab # rest) ! (i - c)))
                   else ps i)" for i
    proof (cases "i = c")
      case True
      then show ?thesis using ih \<open>c < n\<close> ab by simp
    next
      case False
      then show ?thesis using ih by (auto simp: nth_Cons')
    qed
    then show ?thesis using n by blast
  qed
qed

lemma load_char:
  assumes "load inp = (ps, n)"
  shows "n = min (length inp) MAX_POINTS"
    and "ps i = (if i < n then mkPoint (fst (inp ! i)) (snd (inp ! i)) else mkPoint 0 0)"
  using load_loop_char[of inp 0 points0 ps n] assms
  by (simp_all add: load_def points0_def)



lemma run_static:
  assumes "run sched s0 = Some s"
  shows "epsilonSquared s = epsilonSquared s0" and "minPts s = minPts s0"
    and "map fst (workers s) = map fst (workers s0)"
    and "x (points s j) = x (points s0 j)" and "y (points s j) = y (points s0 j)"
    and "visited (points s0 j) \<Longrightarrow> visited (points s j)"
proof -
  let ?P = "\<lambda>s. epsilonSquared s = epsilonSquared s0 \<and> minPts s = minPts s0
      \<and> map fst (workers s) = map fst (workers s0)
      \<and> (\<forall>j. x (points s j) = x (points s0 j) \<and> y (points s j) = y (points s0 j)
            \<and> (visited (points s0 j) \<longrightarrow> visited (points s j)))"
  have "?P s"
  proof (rule run_invariant[OF assms, where P = ?P])
    show "?P s0" by simp
  next
    fix s t s' assume "?P s" "step s t = Some s'"
    then show "?P s'" using step_static[of s t s'] by simp
  qed
  then show "epsilonSquared s = epsilonSquared s0" and "minPts s = minPts s0"
    and "map fst (workers s) = map fst (workers s0)"
    and "x (points s j) = x (points s0 j)" and "y (points s j) = y (points s0 j)"
    and "visited (points s0 j) \<Longrightarrow> visited (points s j)" by simp_all
qed

lemma run_initialized:
  assumes "run sched s0 = Some s"
  shows "initialized (points s) = initialized (points s0)"
  using run_static(4,5)[OF assms] by (auto simp: initialized_def fun_eq_iff)












lemma load_row17: "load (map (\<lambda>k. (real k + 1, 0)) [0..<17]) = (row17, 17)"
proof -
  obtain ps n where l: "load (map (\<lambda>k. (real k + 1, 0)) [0..<17]) = (ps, n)"
    by (cases "load (map (\<lambda>k. (real k + 1, 0)) [0..<17])")
  note c = load_char[OF l]
  have n: "n = 17" using c(1) by (simp add: MAX_POINTS_def)
  have "ps i = row17 i" for i
    using c(2)[of i] n by (simp add: row17_def)
  then have "ps = row17" by (simp add: fun_eq_iff)
  then show ?thesis using l n by simp
qed

lemma row17_slots: "filter (initialized row17) [0..<MAX_POINTS] = [0..<17]"
proof -
  have "filter (initialized row17) [0..<MAX_POINTS] = filter (initialized row17) [0..<17]"
    by (rule loaded_slots) (simp_all add: MAX_POINTS_def row17_def store_simps)
  also have "\<dots> = [0..<17]"
    by (rule filter_True) (simp add: row17_def store_simps)
  finally show ?thesis .
qed

text \<open>
  C7, as stated, fails: for seventeen points \<^verbatim>\<open>dbscan\<close> creates seventeen
  threads, one more than the semaphore has permits.
\<close>

theorem more_threads_than_permits:
  "load (map (\<lambda>k. (real k + 1, 0)) [0..<17]) = (row17, 17) \<and>
   thread_limiter (dbscan row17 (5 / 2) 2) = 16 \<and>
   length (workers (dbscan row17 (5 / 2) 2)) = 17"
  by (simp add: load_row17 dbscan_def row17_slots)

lemma count_update:
  "t < length ws \<Longrightarrow>
   length (filter P (ws[t := v])) + (if P (ws ! t) then 1 else 0) =
   length (filter P ws) + (if P v then 1 else 0)"
proof (induction ws arbitrary: t)
  case Nil
  then show ?case by simp
next
  case (Cons w ws)
  then show ?case by (cases t) auto
qed

lemma step_permits_ok:
  assumes "permits_ok s" and "step s t = Some s'"
  shows "permits_ok s'"
proof -
  from assms(2) obtain k w u w' where t: "t < length (workers s)" "workers s ! t = (k, w)"
    "processPoint s k w = Some (u, w')" "s' = u\<lparr>workers := (workers u)[t := (k, w')]\<rparr>"
    by (rule step_unfold)
  note cu = count_update[OF t(1), of "\<lambda>w. holding (snd w)" "(k, w')"]
  from t(3) show ?thesis
    by (cases rule: processPoint_cases)
       (use assms(1) cu t(2) in \<open>auto simp: permits_ok_def t(4)\<close>)
qed

lemma run_permits_ok: "run sched s0 = Some s \<Longrightarrow> permits_ok s0 \<Longrightarrow> permits_ok s"
  by (rule run_invariant[where P = permits_ok]) (auto intro: step_permits_ok)

lemma dbscan_permits_ok: "permits_ok (dbscan ps eps m)"
  by (simp add: permits_ok_def dbscan_def filter_map comp_def)

text \<open>
  C7, amended. \<^verbatim>\<open>dbscan\<close> creates one thread for every initialised slot, so the
  number of threads is the number of loaded points that are not (0, 0). What is
  bounded is the number of threads between \<^verbatim>\<open>acquire\<close> and \<^verbatim>\<open>release\<close>: in
  every reachable state it is 16 minus the free permits, hence at most 16.
\<close>

theorem thread_per_slot:
  assumes "run sched (dbscan ps eps m) = Some s"
  shows "length (workers s) = card {i. i < MAX_POINTS \<and> initialized ps i}
         \<and> length (filter (\<lambda>w. holding (snd w)) (workers s)) + thread_limiter s = 16"
proof -
  have "length (workers s) = length (map fst (workers s))" by simp
  also have "\<dots> = length (filter (initialized ps) [0..<MAX_POINTS])"
    unfolding run_static(3)[OF assms] by (simp add: dbscan_def comp_def)
  also have "\<dots> = card ({i. initialized ps i} \<inter> set [0..<MAX_POINTS])"
    by (rule distinct_length_filter) simp
  also have "{i. initialized ps i} \<inter> set [0..<MAX_POINTS] = {i. i < MAX_POINTS \<and> initialized ps i}"
    by auto
  finally have "length (workers s) = card {i. i < MAX_POINTS \<and> initialized ps i}" .
  moreover have "permits_ok s"
    using run_permits_ok[OF assms dbscan_permits_ok] .
  ultimately show ?thesis by (simp add: permits_ok_def)
qed

theorem thread_per_slot_witness:
  "\<exists>s. run [0, 0, 1, 1, 1, 1, 1, 1, 1, 1, 1, 1, 1, 1, 0, 0, 0] (dbscan two_points (5 / 2) 2) = Some s
      \<and> length (workers s) = card {i. i < MAX_POINTS \<and> initialized two_points i}
      \<and> length (filter (\<lambda>w. holding (snd w)) (workers s)) + thread_limiter s = 16"
proof -
  have "\<exists>s. run [0, 0, 1, 1, 1, 1, 1, 1, 1, 1, 1, 1, 1, 1, 0, 0, 0]
          (dbscan two_points (5 / 2) 2) = Some s"
    by (simp add: two_points_simps run_simps store_simps)
  then obtain s where r: "run [0, 0, 1, 1, 1, 1, 1, 1, 1, 1, 1, 1, 1, 1, 0, 0, 0]
          (dbscan two_points (5 / 2) 2) = Some s" ..
  show ?thesis using r thread_per_slot[OF r] by blast
qed

lemma load_one_point: "load [(1, 1)] = (one_point, 1)"
  by (simp add: load_def one_point_def MAX_POINTS_def)

lemma one_point_slots: "filter (initialized one_point) [0..<MAX_POINTS] = [0]"
proof -
  have "filter (initialized one_point) [0..<MAX_POINTS] = filter (initialized one_point) [0..<1]"
    by (rule loaded_slots) (simp_all add: MAX_POINTS_def one_point_def store_simps)
  also have "\<dots> = [0]"
    by (simp add: one_point_def store_simps)
  finally show ?thesis .
qed

lemma one_point_around: "scanned one_point p e 0 = filter (accepted one_point p e) [0]"
proof -
  have "scanned one_point p e 0 = filter (accepted one_point p e) [0..<1]"
    by (rule scanned_loaded) (simp_all add: MAX_POINTS_def one_point_def store_simps)
  then show ?thesis by simp
qed

lemma one_point_at: "one_point 0 = mkPoint 1 1"
  by (simp add: one_point_def)

lemmas one_point_simps = dbscan_def one_point_slots one_point_around one_point_at

text \<open>
  C4, as stated, fails: \<^verbatim>\<open>dbscan(-1, 0)\<close> on the file \<open>one_point\<close> starts a worker,
  and when it has finished the point is visited and carries cluster id 1.
\<close>

theorem bad_configuration_runs:
  "load [(1, 1)] = (one_point, 1) \<and>
   workers (dbscan one_point (- 1) 0) = [(0, AtAcquire)] \<and>
   map_option (\<lambda>s. (joined s, visited (points s 0), clusterId (points s 0)))
     (run [0, 0, 0, 0, 0, 0, 0, 0, 0] (dbscan one_point (- 1) 0)) = Some (True, True, 1)"
  by (simp add: load_one_point one_point_simps run_simps store_simps)

lemma step_entered_ok:
  assumes "entered_ok s" and "step s t = Some s'"
  shows "entered_ok s'"
proof -
  from assms(2) obtain k w u w' where t: "t < length (workers s)" "workers s ! t = (k, w)"
    "processPoint s k w = Some (u, w')" "s' = u\<lparr>workers := (workers u)[t := (k, w')]\<rparr>"
    by (rule step_unfold)
  have mem: "(k, w) \<in> set (workers s)" using t(1,2) by (metis nth_mem)
  from t(3) show ?thesis
    by (cases rule: processPoint_cases)
       (use assms(1) mem in \<open>auto simp: entered_ok_def t(4) dest!: in_set_updD\<close>)
qed

lemma run_entered_ok: "run sched s0 = Some s \<Longrightarrow> entered_ok s0 \<Longrightarrow> entered_ok s"
  by (rule run_invariant[where P = entered_ok]) (auto intro: step_entered_ok)

lemma dbscan_entered_ok: "entered_ok (dbscan ps eps m)"
  by (auto simp: entered_ok_def dbscan_def)

text \<open>
  C4, amended. \<^verbatim>\<open>dbscan\<close> checks nothing: for every \<open>epsilon\<close> and every
  \<open>minPts\<close> it starts a worker for each initialised slot, the workers run with
  \<^verbatim>\<open>epsilon * epsilon\<close> and \<open>minPts\<close> as given, and when all have finished every
  initialised slot has its visited flag set.
\<close>

theorem no_configuration_check:
  assumes "run sched (dbscan ps eps m) = Some s" and "joined s"
  shows "map fst (workers s) = filter (initialized ps) [0..<MAX_POINTS]
         \<and> list_all (\<lambda>i. visited (points s i)) (filter (initialized ps) [0..<MAX_POINTS])
         \<and> epsilonSquared s = double_times eps eps \<and> minPts s = m"
proof -
  have ok: "entered_ok s" using run_entered_ok[OF assms(1) dbscan_entered_ok] .
  have fst: "map fst (workers s) = filter (initialized ps) [0..<MAX_POINTS]"
    unfolding run_static(3)[OF assms(1)] by (simp add: dbscan_def comp_def)
  have "visited (points s i)" if "i \<in> set (filter (initialized ps) [0..<MAX_POINTS])" for i
  proof -
    from that obtain e where e: "e \<in> set (workers s)" "fst e = i"
      unfolding fst[symmetric] by auto
    then have "snd e = Finished" using assms(2) by (auto simp: joined_def list_all_iff)
    then show ?thesis using ok e by (auto simp: entered_ok_def)
  qed
  then show ?thesis
    using fst run_static(1,2)[OF assms(1)] by (simp add: list_all_iff dbscan_def)
qed

theorem no_configuration_check_witness:
  "\<exists>s. run [0, 0, 0, 0, 0, 0, 0, 0, 0] (dbscan one_point (- 1) 0) = Some s \<and> joined s
      \<and> map fst (workers s) = filter (initialized one_point) [0..<MAX_POINTS]
      \<and> list_all (\<lambda>i. visited (points s i)) (filter (initialized one_point) [0..<MAX_POINTS])
      \<and> epsilonSquared s = double_times (- 1) (- 1) \<and> minPts s = 0"
proof -
  have "\<exists>s. run [0, 0, 0, 0, 0, 0, 0, 0, 0] (dbscan one_point (- 1) 0) = Some s \<and> joined s"
    by (simp add: one_point_simps run_simps store_simps)
  then obtain s where r: "run [0, 0, 0, 0, 0, 0, 0, 0, 0] (dbscan one_point (- 1) 0) = Some s"
    and j: "joined s" by blast
  show ?thesis using r j no_configuration_check[OF r j] by blast
qed

section \<open>Termination of the expansion\<close>

lemma in_set_upd_distinct:
  assumes "distinct (map fst ws)" and "t < length ws" and "e \<in> set (ws[t := v])"
  shows "e = v \<or> (e \<in> set ws \<and> fst e \<noteq> fst (ws ! t))"
proof -
  from assms(3) obtain j where j: "j < length ws" "(ws[t := v]) ! j = e"
    by (auto simp: in_set_conv_nth)
  show ?thesis
  proof (cases "j = t")
    case True
    then show ?thesis using j by simp
  next
    case False
    then have e: "e = ws ! j" using j by simp
    have "map fst ws ! j \<noteq> map fst ws ! t"
      using nth_eq_iff_index_eq[OF assms(1), of j t] assms(2) j(1) False by simp
    then have "fst (ws ! j) \<noteq> fst (ws ! t)" using assms(2) j(1) by simp
    then show ?thesis using e j(1) by simp
  qed
qed

lemma fst_update_same:
  "t < length ws \<Longrightarrow> ws ! t = (k, w) \<Longrightarrow> map fst (ws[t := (k, w')]) = map fst ws"
  by (metis fst_conv length_map list_update_id map_update nth_map)

lemma workers_update_all:
  assumes "distinct (map fst ws)" and "t < length ws" and "ws ! t = (k, w)"
    and "Q (k, w')" and "\<And>e. e \<in> set ws \<Longrightarrow> fst e \<noteq> k \<Longrightarrow> Q e"
  shows "\<forall>e \<in> set (ws[t := (k, w')]). Q e"
  using in_set_upd_distinct[OF assms(1,2), of _ "(k, w')"] assms(3,4,5) by auto

lemma calls_ok_step:
  assumes "calls_ok s" and "t < length (workers s)" and "workers s ! t = (k, w)"
    and "workers s' = (workers s)[t := (k, w')]"
    and "distinct (calls s')"
    and "\<forall>q \<in> set (calls s'). visited (points s' q) \<and> slot_ok (points s') q"
    and "worker_ok (points s') (calls s') (k, w')"
    and "\<And>e. e \<in> set (workers s) \<Longrightarrow> fst e \<noteq> k \<Longrightarrow> worker_ok (points s) (calls s) e
           \<Longrightarrow> worker_ok (points s') (calls s') e"
  shows "calls_ok s'"
proof -
  have dist: "distinct (map fst (workers s))" using assms(1) by (simp add: calls_ok_def)
  have old: "worker_ok (points s) (calls s) e" if "e \<in> set (workers s)" for e
    using assms(1) that by (simp add: calls_ok_def)
  have "\<forall>e \<in> set ((workers s)[t := (k, w')]). worker_ok (points s') (calls s') e"
    by (rule workers_update_all[where Q = "worker_ok (points s') (calls s')",
          OF dist assms(2,3,7)]) (use assms(8) old in blast)
  then show ?thesis
    using assms(4,5,6) dist fst_update_same[OF assms(2,3)] by (simp add: calls_ok_def)
qed

lemma around_slot_ok: "q \<in> set (scanned ps p e 0) \<Longrightarrow> slot_ok ps q"
  by (auto simp: slot_ok_def scanned_def accepted_def initialized_def)

lemma slot_ok_simps [simp]:
  "slot_ok (set_visited ps q) = slot_ok ps"
  "slot_ok (set_clusterId ps q c) = slot_ok ps"
  by (simp_all add: slot_ok_def fun_eq_iff)

lemma step_calls_ok:
  assumes "calls_ok s" and "step s t = Some s'"
  shows "calls_ok s'"
proof -
  from assms(2) obtain k w u w' where t: "t < length (workers s)" "workers s ! t = (k, w)"
    "processPoint s k w = Some (u, w')" "s' = u\<lparr>workers := (workers u)[t := (k, w')]\<rparr>"
    by (rule step_unfold)
  have mem: "(k, w) \<in> set (workers s)" using t(1,2) by (metis nth_mem)
  have own: "worker_ok (points s) (calls s) (k, w)"
    using assms(1) mem by (simp add: calls_ok_def)
  have cs: "distinct (calls s)" "\<forall>q \<in> set (calls s). visited (points s q) \<and> slot_ok (points s) q"
    using assms(1) by (simp_all add: calls_ok_def)
  have unseen: "q \<notin> set (calls s)" if "\<not> visited (points s q)" for q
    using cs(2) that by auto
  note rule = calls_ok_step[OF assms(1) t(1,2), of s' w']
  from t(3) show ?thesis
  proof (cases rule: processPoint_cases)
    case core
    show ?thesis
      by (rule rule)
         (use core own cs unseen[of k] around_slot_ok in \<open>auto simp: t(4) worker_ok_def\<close>)
  next
    case (recurse f fs)
    let ?q = "neighbors f ! loop_i f"
    have q: "slot_ok (points s) ?q" using own recurse(1,3) by (simp add: worker_ok_def)
    have nq: "?q \<notin> set (calls s)" using unseen recurse(4) by blast
    show ?thesis
      by (rule rule)
         (use recurse own cs q nq around_slot_ok in \<open>auto simp: t(4) worker_ok_def\<close>)
  qed (rule rule; use own cs in \<open>auto simp: t(4) worker_ok_def\<close>)+
qed

lemma sum_update:
  "t < length ws \<Longrightarrow>
   sum_list (map g (ws[t := v])) + g (ws ! t) = sum_list (map g ws) + (g v :: nat)"
proof (induction ws arbitrary: t)
  case Nil
  then show ?case by simp
next
  case (Cons w ws)
  then show ?case by (cases t) auto
qed

lemma unvisited_set_clusterId [simp]: "unvisited (set_clusterId ps q c) = unvisited ps"
  by (simp add: unvisited_def)

lemma unvisited_set_visited:
  assumes "q < MAX_POINTS" and "\<not> visited (ps q)"
  shows "unvisited (set_visited ps q) + 1 = unvisited ps"
proof -
  let ?U = "{i. i < MAX_POINTS \<and> \<not> visited (ps i)}"
  have fin: "finite ?U" by simp
  have q: "q \<in> ?U" using assms by simp
  have "{i. i < MAX_POINTS \<and> \<not> visited (set_visited ps q i)} = ?U - {q}" by auto
  then have "unvisited (set_visited ps q) = card (?U - {q})" by (simp add: unvisited_def)
  also have "\<dots> + 1 = card ?U" using card_Suc_Diff1[OF fin q] by simp
  finally show ?thesis by (simp add: unvisited_def)
qed

lemma processPoint_workers:
  assumes "processPoint s k w = Some (u, w')"
  shows "workers u = workers s"
  using assms by (cases rule: processPoint_cases) simp_all

lemma decrease_same:
  fixes W :: nat
  assumes "S' + a = S + b" and "b < a" and "U' = U"
  shows "W * U' + S' < W * U + S"
  using assms by simp

lemma decrease_visit:
  fixes W :: nat
  assumes "S' + a = S + b" and "b < a + W" and "U' + 1 = U"
  shows "W * U' + S' < W * U + S"
proof -
  have "W * U = W * U' + W" unfolding assms(3)[symmetric] by simp
  then show ?thesis using assms(1,2) by linarith
qed

lemma step_work_left:
  assumes "calls_ok s" and "step s t = Some s'"
  shows "work_left s' < work_left s"
proof -
  from assms(2) obtain k w u w' where t: "t < length (workers s)" "workers s ! t = (k, w)"
    "processPoint s k w = Some (u, w')" "s' = u\<lparr>workers := (workers u)[t := (k, w')]\<rparr>"
    by (rule step_unfold)
  have mem: "(k, w) \<in> set (workers s)" using t(1,2) by (metis nth_mem)
  have own: "worker_ok (points s) (calls s) (k, w)"
    using assms(1) mem by (simp add: calls_ok_def)
  let ?S = "\<lambda>s. sum_list (map (\<lambda>e. worker_left (snd e)) (workers s))"
  have ws: "workers s' = (workers s)[t := (k, w')]"
    using t(4) processPoint_workers[OF t(3)] by simp
  have S: "?S s' + worker_left w = ?S s + worker_left w'"
    using sum_update[OF t(1), of "\<lambda>e. worker_left (snd e)" "(k, w')"] t(2) ws by simp
  have ps: "points s' = points u" using t(4) by simp
  have len: "length (around s q) \<le> MAX_POINTS" for q by (rule length_scanned)
  have same: ?thesis
    if "worker_left w' < worker_left w" "unvisited (points s') = unvisited (points s)"
    unfolding work_left_def by (rule decrease_same[OF S that])
  have visit: ?thesis
    if "worker_left w' < worker_left w + (3 * MAX_POINTS + 4)"
       "unvisited (points s') + 1 = unvisited (points s)"
    unfolding work_left_def by (rule decrease_visit[OF S that])
  have mark: "unvisited (set_visited (points s) q) + 1 = unvisited (points s)"
    if "slot_ok (points s) q" "\<not> visited (points s q)" for q
    using unvisited_set_visited[of q "points s"] that by (simp add: slot_ok_def)
  from t(3) show ?thesis
  proof (cases rule: processPoint_cases)
    case sparse
    have "slot_ok (points s) k" using own by (simp add: worker_ok_def)
    then have "unvisited (points s') + 1 = unvisited (points s)"
      using mark[of k] sparse(2,4) by (simp add: ps)
    moreover have "worker_left w' < worker_left w + (3 * MAX_POINTS + 4)"
      using sparse(1,5) by simp
    ultimately show ?thesis by (intro visit)
  next
    case core
    have "slot_ok (points s) k" using own by (simp add: worker_ok_def)
    then have "unvisited (points s') + 1 = unvisited (points s)"
      using mark[of k] core(2,4) by (simp add: ps)
    moreover have "worker_left w' < worker_left w + (3 * MAX_POINTS + 4)"
      using core(1,5) len[of k] by simp
    ultimately show ?thesis by (intro visit)
  next
    case (skip f fs)
    have "worker_left w' < worker_left w" using skip(1,2,3,6) by simp
    then show ?thesis by (rule same) (simp add: skip ps)
  next
    case (border f fs)
    have "slot_ok (points s) (neighbors f ! loop_i f)"
      using own border(1,3) by (simp add: worker_ok_def)
    then have "unvisited (points s') + 1 = unvisited (points s)"
      using mark[of "neighbors f ! loop_i f"] border(4,6) by (simp add: ps)
    moreover have "worker_left w' < worker_left w + (3 * MAX_POINTS + 4)"
      using border(1,2,3,7) by simp
    ultimately show ?thesis by (intro visit)
  next
    case (recurse f fs)
    have "slot_ok (points s) (neighbors f ! loop_i f)"
      using own recurse(1,3) by (simp add: worker_ok_def)
    then have "unvisited (points s') + 1 = unvisited (points s)"
      using mark[of "neighbors f ! loop_i f"] recurse(4,6) by (simp add: ps)
    moreover have "worker_left w' < worker_left w + (3 * MAX_POINTS + 4)"
      using recurse(1,2,3,7) len[of "neighbors f ! loop_i f"] by simp
    ultimately show ?thesis by (intro visit)
  qed (rule same; simp add: ps)+
qed

lemma run_calls_ok: "run sched s0 = Some s \<Longrightarrow> calls_ok s0 \<Longrightarrow> calls_ok s"
  by (rule run_invariant[where P = calls_ok]) (auto intro: step_calls_ok)

lemma dbscan_calls_ok: "calls_ok (dbscan ps eps m)"
  by (auto simp: calls_ok_def worker_ok_def slot_ok_def dbscan_def comp_def)

lemma run_work_left:
  "run sched s0 = Some s \<Longrightarrow> calls_ok s0 \<Longrightarrow> length sched + work_left s \<le> work_left s0"
proof (induction sched arbitrary: s0)
  case Nil
  then show ?case by simp
next
  case (Cons t ts)
  from Cons.prems(1) obtain s1 where s1: "step s0 t = Some s1" "run ts s1 = Some s"
    by (auto split: option.splits)
  have "calls_ok s1" using step_calls_ok[OF Cons.prems(2) s1(1)] .
  then have "length ts + work_left s \<le> work_left s1" using Cons.IH[OF s1(2)] by simp
  moreover have "work_left s1 < work_left s0" using step_work_left[OF Cons.prems(2) s1(1)] .
  ultimately show ?case by simp
qed

lemma unvisited_le: "unvisited ps \<le> MAX_POINTS"
proof -
  have "card {i. i < MAX_POINTS \<and> \<not> visited (ps i)} \<le> card {i. i < MAX_POINTS}"
    by (rule card_mono) auto
  then show ?thesis by (simp add: unvisited_def)
qed

lemma dbscan_work_left: "work_left (dbscan ps eps m) \<le> (3 * MAX_POINTS + 7) * MAX_POINTS"
proof -
  have "length (filter (initialized ps) [0..<MAX_POINTS]) \<le> MAX_POINTS"
    using length_filter_le[of "initialized ps" "[0..<MAX_POINTS]"] by simp
  then have a: "sum_list (map (\<lambda>e. worker_left (snd e)) (workers (dbscan ps eps m))) \<le> 3 * MAX_POINTS"
    by (simp add: dbscan_def comp_def sum_list_triv)
  have b: "(3 * MAX_POINTS + 4) * unvisited ps \<le> (3 * MAX_POINTS + 4) * MAX_POINTS"
    using unvisited_le[of ps] by simp
  have c: "points (dbscan ps eps m) = ps" by (simp add: dbscan_def)
  have "work_left (dbscan ps eps m) \<le> (3 * MAX_POINTS + 4) * MAX_POINTS + 3 * MAX_POINTS"
    unfolding work_left_def c by (rule add_mono[OF b a])
  also have "\<dots> = (3 * MAX_POINTS + 7) * MAX_POINTS" by (simp add: algebra_simps)
  finally show ?thesis .
qed

lemma holding_can_step: "holding w \<Longrightarrow> \<exists>r. processPoint s k w = Some r"
proof (cases w)
  case (InExpand stack)
  show ?thesis
  proof (cases stack)
    case Nil
    then show ?thesis using InExpand by simp
  next
    case (Cons f fs)
    then show ?thesis using InExpand
      by (cases "pc f") (auto simp: expand_step_def visit_char Let_def)
  qed
qed (auto simp: visit_char Let_def)

lemma progress:
  assumes "permits_ok s" and "\<not> joined s"
  shows "\<exists>t s'. step s t = Some s'"
proof (cases "\<exists>e \<in> set (workers s). holding (snd e)")
  case True
  then obtain t where t: "t < length (workers s)" "holding (snd (workers s ! t))"
    by (auto simp: in_set_conv_nth)
  obtain r where "processPoint s (fst (workers s ! t)) (snd (workers s ! t)) = Some r"
    using holding_can_step[OF t(2)] by blast
  then have "\<exists>s'. step s t = Some s'"
    using t(1) by (cases r) (simp add: step_def)
  then show ?thesis by blast
next
  case False
  then have "filter (\<lambda>w. holding (snd w)) (workers s) = []"
    by (auto simp: filter_empty_conv)
  then have free: "0 < thread_limiter s" using assms(1) by (simp add: permits_ok_def)
  from assms(2) obtain t where t: "t < length (workers s)" "snd (workers s ! t) \<noteq> Finished"
    by (auto simp: joined_def list_all_iff in_set_conv_nth)
  have "\<not> holding (snd (workers s ! t))" using False t(1) by auto
  then have "snd (workers s ! t) = AtAcquire"
    using t(2) by (cases "snd (workers s ! t)") simp_all
  then have "\<exists>s'. step s t = Some s'"
    using t(1) free by (simp add: step_def)
  then show ?thesis by blast
qed

text \<open>
  C9. In every state the workers can reach, under every interleaving:
  \<^verbatim>\<open>expandCluster\<close> has been called at most once for any slot, each call was for a
  slot whose visited flag is set (the exchange at line 73 or 92 returned false for
  it), so there are at most as many calls as initialised slots, hence at most
  \<^verbatim>\<open>MAX_POINTS\<close>, and no stack of activations is deeper than the number of calls; the number of steps taken is bounded; and as long
  as some worker has not finished, some worker can take a step. So every run ends
  with all workers finished.
\<close>

theorem expansion_terminates:
  assumes "run sched (dbscan ps eps m) = Some s"
  shows "distinct (calls s)
         \<and> list_all (\<lambda>q. visited (points s q) \<and> q < MAX_POINTS \<and> initialized ps q) (calls s)
         \<and> length (calls s) \<le> length (workers s) \<and> length (workers s) \<le> MAX_POINTS
         \<and> list_all (\<lambda>e. length (frames_of (snd e)) \<le> length (calls s)) (workers s)
         \<and> length sched \<le> (3 * MAX_POINTS + 7) * MAX_POINTS
         \<and> (\<not> joined s \<longrightarrow> (\<exists>t s'. step s t = Some s'))"
proof -
  have ok: "calls_ok s" using run_calls_ok[OF assms dbscan_calls_ok] .
  have ini: "initialized (points s) = initialized ps"
    using run_initialized[OF assms] by (simp add: dbscan_def)
  have d: "distinct (calls s)" using ok by (simp add: calls_ok_def)
  have v: "list_all (\<lambda>q. visited (points s q) \<and> q < MAX_POINTS \<and> initialized ps q) (calls s)"
    using ok ini by (simp add: calls_ok_def slot_ok_def list_all_iff)
  have fst: "map fst (workers s) = filter (initialized ps) [0..<MAX_POINTS]"
    unfolding run_static(3)[OF assms] by (simp add: dbscan_def comp_def)
  have "set (calls s) \<subseteq> set (map fst (workers s))"
    unfolding fst using v by (auto simp: list_all_iff)
  then have "card (set (calls s)) \<le> card (set (map fst (workers s)))"
    by (intro card_mono) auto
  also have "\<dots> \<le> length (map fst (workers s))" by (rule card_length)
  finally have n: "length (calls s) \<le> length (workers s)"
    using distinct_card[OF d] by simp
  have "length (map fst (workers s)) \<le> length [0..<MAX_POINTS]"
    unfolding fst by (rule length_filter_le)
  then have n': "length (workers s) \<le> MAX_POINTS" by simp
  have depth: "length (frames_of (snd e)) \<le> length (calls s)" if "e \<in> set (workers s)" for e
  proof -
    have w: "worker_ok (points s) (calls s) e" using ok that by (simp add: calls_ok_def)
    then have "length (frames_of (snd e)) = card (pointIndex ` set (frames_of (snd e)))"
      using distinct_card[of "map pointIndex (frames_of (snd e))"] by (simp add: worker_ok_def)
    also have "\<dots> \<le> card (set (calls s))"
      using w by (intro card_mono) (auto simp: worker_ok_def)
    finally show ?thesis using distinct_card[OF d] by simp
  qed
  have "length sched + work_left s \<le> work_left (dbscan ps eps m)"
    using run_work_left[OF assms dbscan_calls_ok] .
  then have b: "length sched \<le> (3 * MAX_POINTS + 7) * MAX_POINTS"
    using dbscan_work_left[of ps eps m] by linarith
  have p: "\<not> joined s \<longrightarrow> (\<exists>t s'. step s t = Some s')"
    using progress[OF run_permits_ok[OF assms dbscan_permits_ok]] by blast
  show ?thesis using d v n n' depth b p by (simp add: list_all_iff)
qed

theorem expansion_terminates_witness:
  "\<exists>s. run [0, 0, 1, 1, 1, 1, 1, 1, 1, 1, 1, 1, 1, 1, 0, 0, 0, 0, 0, 0, 0, 0, 0]
          (dbscan two_points (5 / 2) 2) = Some s
      \<and> calls s = [1, 0]
      \<and> distinct (calls s)
      \<and> list_all (\<lambda>q. visited (points s q) \<and> q < MAX_POINTS \<and> initialized two_points q) (calls s)
      \<and> length (calls s) \<le> length (workers s) \<and> length (workers s) \<le> MAX_POINTS
      \<and> list_all (\<lambda>e. length (frames_of (snd e)) \<le> length (calls s)) (workers s)
      \<and> length [0, 0, 1, 1, 1, 1, 1, 1, 1, 1, 1, 1, 1, 1, 0, 0, 0, 0, 0, 0, 0, 0, 0 :: nat]
          \<le> (3 * MAX_POINTS + 7) * MAX_POINTS
      \<and> joined s"
proof -
  have "\<exists>s. run [0, 0, 1, 1, 1, 1, 1, 1, 1, 1, 1, 1, 1, 1, 0, 0, 0, 0, 0, 0, 0, 0, 0]
          (dbscan two_points (5 / 2) 2) = Some s \<and> calls s = [1, 0] \<and> joined s"
    by (simp add: two_points_simps run_simps store_simps)
  then obtain s where r: "run [0, 0, 1, 1, 1, 1, 1, 1, 1, 1, 1, 1, 1, 1, 0, 0, 0, 0, 0, 0, 0, 0, 0]
          (dbscan two_points (5 / 2) 2) = Some s" and c: "calls s = [1, 0]" and j: "joined s"
    by blast
  show ?thesis using r c j expansion_terminates[OF r] by blast
qed

section \<open>Range of the counters\<close>

text \<open>
  \<^verbatim>\<open>nextClusterId\<close> is an \<^verbatim>\<open>int\<close> in the source and an unbounded integer here. It
  stays between 0 and \<^verbatim>\<open>MAX_POINTS\<close>, so the increment at line 100 never wraps.
\<close>

lemma step_counter_ok:
  assumes "counter_ok s" and "step s t = Some s'"
  shows "counter_ok s'"
proof -
  from assms(2) obtain k w u w' where t: "processPoint s k w = Some (u, w')"
    "s' = u\<lparr>workers := (workers u)[t := (k, w')]\<rparr>"
    by (rule step_unfold)
  from t(1) show ?thesis
    by (cases rule: processPoint_cases) (use assms(1) in \<open>auto simp: counter_ok_def t(2)\<close>)
qed

lemma calls_bound:
  assumes "calls_ok s"
  shows "length (calls s) \<le> MAX_POINTS"
proof -
  have "set (calls s) \<subseteq> {i. i < MAX_POINTS}"
    using assms by (auto simp: calls_ok_def slot_ok_def)
  then have "card (set (calls s)) \<le> card {i. i < MAX_POINTS}" by (intro card_mono) auto
  moreover have "distinct (calls s)" using assms by (simp add: calls_ok_def)
  ultimately show ?thesis by (simp add: distinct_card)
qed

lemma cluster_ids_fit:
  assumes "run sched (dbscan ps eps m) = Some s"
  shows "0 \<le> nextClusterId s \<and> nextClusterId s \<le> int MAX_POINTS"
proof -
  have "counter_ok (dbscan ps eps m)" by (simp add: counter_ok_def dbscan_def)
  then have "counter_ok s"
    by (rule run_invariant[OF assms, where P = counter_ok]) (rule step_counter_ok)
  moreover have "length (calls s) \<le> MAX_POINTS"
    using calls_bound[OF run_calls_ok[OF assms dbscan_calls_ok]] .
  ultimately show ?thesis by (simp add: counter_ok_def)
qed

section \<open>Degenerate radius\<close>

lemma same_place_simps [simp]:
  "same_place (set_visited ps q) = same_place ps"
  "same_place (set_clusterId ps q c) = same_place ps"
  by (simp_all add: same_place_def fun_eq_iff)

lemma touching_simps [simp]:
  "touching (set_visited ps q) = touching ps"
  "touching (set_clusterId ps q c) = touching ps"
  by (simp_all add: touching_def fun_eq_iff squaredDistance_def)

lemma chained_simps [simp]:
  "chained (set_visited ps q) = chained ps"
  "chained (set_clusterId ps q c) = chained ps"
  by (simp_all add: chained_def)

lemma frame_placed_simps [simp]:
  "frame_placed (set_visited ps q) = frame_placed ps"
  "frame_placed (set_clusterId ps q c) = frame_placed ps"
  by (simp_all add: frame_placed_def fun_eq_iff)

lemma worker_placed_simps [simp]:
  "worker_placed (set_visited ps q) = worker_placed ps"
  "worker_placed (set_clusterId ps q c) = worker_placed ps"
  by (simp_all add: worker_placed_def fun_eq_iff)

lemma same_place_refl [simp]: "same_place ps a a"
  by (simp add: same_place_def)



lemma chained_refl [simp]: "chained ps a a"
  by (simp add: chained_def)































end
